theory Spec2Isabelle
  imports Main "HOL-Library.Char_ord" "HOL-Library.List_Lexorder"
begin

unbundle bit_operations_syntax

section \<open>Character classes of the C locale\<close>

text \<open>
  The server never calls \<^verbatim>\<open>setlocale\<close>, so \<^verbatim>\<open>isalnum\<close> and the white space
  skipped by \<^verbatim>\<open>strtol\<close> are those of the "C" locale. A \<^verbatim>\<open>std::string\<close> is a
  sequence of bytes; \<^typ>\<open>string\<close> is a list of 8-bit characters, compared as
  unsigned bytes like \<^verbatim>\<open>std::char_traits<char>\<close> does.
\<close>

definition isdigit :: "char \<Rightarrow> bool" where
  "isdigit c \<longleftrightarrow> CHR ''0'' \<le> c \<and> c \<le> CHR ''9''"

definition isalpha :: "char \<Rightarrow> bool" where
  "isalpha c \<longleftrightarrow> (CHR ''A'' \<le> c \<and> c \<le> CHR ''Z'') \<or> (CHR ''a'' \<le> c \<and> c \<le> CHR ''z'')"

definition isalnum :: "char \<Rightarrow> bool" where
  "isalnum c \<longleftrightarrow> isalpha c \<or> isdigit c"

definition isspace :: "char \<Rightarrow> bool" where
  "isspace c \<longleftrightarrow> c = CHR '' '' \<or> (CHR 0x09 \<le> c \<and> c \<le> CHR 0x0D)"

section \<open>Utils (utils.cpp)\<close>

text \<open>
  \<^verbatim>\<open>Utils::split\<close>: repeated \<^verbatim>\<open>std::getline(ss, token, delimiter)\<close>. The second
  argument is the token read so far. A call of getline that meets the end of the
  stream before extracting any character fails and ends the loop, so a trailing
  delimiter yields no empty last token, while doubled delimiters yield an empty one.
\<close>

fun getline_loop :: "char \<Rightarrow> string \<Rightarrow> string \<Rightarrow> string list" where
  "getline_loop d tok [] = (if tok = [] then [] else [tok])"
| "getline_loop d tok (c # cs) =
     (if c = d then tok # getline_loop d [] cs else getline_loop d (tok @ [c]) cs)"

definition split :: "string \<Rightarrow> char \<Rightarrow> string list" where
  "split str delimiter = getline_loop delimiter [] str"

text \<open>\<^verbatim>\<open>str.find_first_not_of(' ')\<close> and \<^verbatim>\<open>str.find_last_not_of(' ')\<close>; \<open>None\<close> is \<^verbatim>\<open>npos\<close>.\<close>

fun find_first_not_of :: "string \<Rightarrow> char \<Rightarrow> nat option" where
  "find_first_not_of [] ch = None"
| "find_first_not_of (c # cs) ch =
     (if c \<noteq> ch then Some 0 else map_option Suc (find_first_not_of cs ch))"

fun find_last_not_of :: "string \<Rightarrow> char \<Rightarrow> nat option" where
  "find_last_not_of [] ch = None"
| "find_last_not_of (c # cs) ch =
     (case find_last_not_of cs ch of
        Some i \<Rightarrow> Some (Suc i)
      | None \<Rightarrow> (if c \<noteq> ch then Some 0 else None))"

text \<open>\<^verbatim>\<open>str.substr(pos, n)\<close> for \<open>pos \<le> length str\<close> (the only way it is called here).\<close>

definition substr :: "string \<Rightarrow> nat \<Rightarrow> nat \<Rightarrow> string" where
  "substr str pos n = take n (drop pos str)"

text \<open>\<^verbatim>\<open>Utils::trim\<close>: only the space character \<open>0x20\<close> is looked for.\<close>

definition trim :: "string \<Rightarrow> string" where
  "trim str =
     (case find_first_not_of str (CHR '' '') of
        None \<Rightarrow> []
      | Some first_pos \<Rightarrow>
          (case find_last_not_of str (CHR '' '') of
             None \<Rightarrow> []
           | Some last_pos \<Rightarrow> substr str first_pos (last_pos - first_pos + 1)))"

text \<open>\<^verbatim>\<open>std::to_string(long)\<close>: decimal digits, a minus sign for negative values.\<close>

definition digit_char :: "nat \<Rightarrow> char" where
  "digit_char d = char_of (48 + d)"

fun dec_digits :: "nat \<Rightarrow> string" where
  "dec_digits n = (if n < 10 then [digit_char n] else dec_digits (n div 10) @ [digit_char (n mod 10)])"

declare dec_digits.simps [simp del]

definition to_string :: "int \<Rightarrow> string" where
  "to_string i = (if i < 0 then CHR ''-'' # dec_digits (nat (- i)) else dec_digits (nat i))"

text \<open>
  \<^verbatim>\<open>snprintf(buffer, 32, "%.1f", size / d)\<close> for a positive size below \<open>2^53\<close> and
  \<open>d\<close> a power of two: the quotient is exact in binary64 and the conversion rounds the
  exact value to one decimal, ties to the even digit. \<open>tenths\<close> is that rounded value
  times ten.
\<close>

definition tenths :: "int \<Rightarrow> int \<Rightarrow> int" where
  "tenths sz d =
     (let q = (sz * 10) div d; r = (sz * 10) mod d
      in if 2 * r < d then q else if 2 * r > d then q + 1 else if even q then q else q + 1)"

definition one_decimal :: "int \<Rightarrow> int \<Rightarrow> string" where
  "one_decimal sz d =
     (let t = tenths sz d in to_string (t div 10) @ ''.'' @ to_string (t mod 10))"

text \<open>\<^verbatim>\<open>Utils::formatFileSize\<close>.\<close>

definition formatFileSize :: "int \<Rightarrow> string" where
  "formatFileSize sz =
     (if sz < 1024 then to_string sz @ '' B''
      else if sz < 1024 * 1024 then one_decimal sz 1024 @ '' KB''
      else one_decimal sz (1024 * 1024) @ '' MB'')"

section \<open>Encryption (encryption.hpp)\<close>

definition DEFAULT_KEY :: string where
  "DEFAULT_KEY = ''NetworkChat2025!SecureKey#''"

text \<open>\<^verbatim>\<open>Encryption::encrypt\<close>: byte \<open>i\<close> is xor-ed with key byte \<open>i mod key_len\<close>.\<close>

definition encrypt :: "string \<Rightarrow> string \<Rightarrow> string" where
  "encrypt plaintext key =
     map (\<lambda>i. char_of ((of_char (plaintext ! i) :: nat) XOR of_char (key ! (i mod length key))))
       [0..<length plaintext]"

definition decrypt :: "string \<Rightarrow> string \<Rightarrow> string" where
  "decrypt ciphertext key = encrypt ciphertext key"

text \<open>\<^verbatim>\<open>Encryption::isEnabled\<close> returns the constant \<^verbatim>\<open>false\<close>.\<close>

definition isEnabled :: bool where
  "isEnabled = False"

definition encrypt_if_enabled :: "string \<Rightarrow> string" where
  "encrypt_if_enabled msg = (if isEnabled then encrypt msg DEFAULT_KEY else msg)"

section \<open>The client registry (server.hpp, server.cpp)\<close>

type_synonym sockaddr_in = "nat \<times> nat"

record ClientInfo =
  socket_fd :: int
  username :: string
  address :: sockaddr_in

text \<open>
  \<^verbatim>\<open>std::map<std::string, ClientInfo> clients\<close> is modelled by its in-order sequence
  of entries: keys strictly ascending in the order of \<^verbatim>\<open>std::string::operator<\<close>
  (bytewise lexicographic). The mutex \<^verbatim>\<open>clients_mutex\<close> makes each of the
  operations below one atomic step.
\<close>

type_synonym clients = "(string \<times> ClientInfo) list"

definition clients_wf :: "clients \<Rightarrow> bool" where
  "clients_wf cs \<longleftrightarrow> sorted (map fst cs) \<and> distinct (map fst cs)"

text \<open>\<^verbatim>\<open>clients.find(k)\<close>; \<open>None\<close> is \<^verbatim>\<open>clients.end()\<close>.\<close>

definition clients_find :: "clients \<Rightarrow> string \<Rightarrow> ClientInfo option" where
  "clients_find cs k = map_of cs k"

text \<open>\<^verbatim>\<open>clients[k] = v\<close>: assigns to the entry of \<open>k\<close>, inserting it in key order when absent.\<close>

fun clients_assign :: "string \<Rightarrow> ClientInfo \<Rightarrow> clients \<Rightarrow> clients" where
  "clients_assign k v [] = [(k, v)]"
| "clients_assign k v ((k', v') # cs) =
     (if k < k' then (k, v) # (k', v') # cs
      else if k = k' then (k, v) # cs
      else (k', v') # clients_assign k v cs)"

text \<open>\<^verbatim>\<open>clients.erase(k)\<close>.\<close>

definition clients_erase :: "string \<Rightarrow> clients \<Rightarrow> clients" where
  "clients_erase k cs = filter (\<lambda>p. fst p \<noteq> k) cs"

text \<open>\<^verbatim>\<open>ChatServer::registerClient\<close> and \<^verbatim>\<open>ChatServer::deregisterClient\<close> (the log line aside).\<close>

definition registerClient :: "string \<Rightarrow> ClientInfo \<Rightarrow> clients \<Rightarrow> clients" where
  "registerClient uname client cs = clients_assign uname client cs"

definition deregisterClient :: "string \<Rightarrow> clients \<Rightarrow> clients" where
  "deregisterClient uname cs = clients_erase uname cs"

text \<open>
  \<^verbatim>\<open>ChatServer::getActiveUsers\<close>: the loop over the map appends \<^verbatim>\<open>", "\<close> only when
  the string built so far is not empty.
\<close>

fun getActiveUsers_loop :: "string \<Rightarrow> clients \<Rightarrow> string" where
  "getActiveUsers_loop users [] = users"
| "getActiveUsers_loop users (p # cs) =
     getActiveUsers_loop ((if users \<noteq> [] then users @ '', '' else users) @ fst p) cs"

definition getActiveUsers :: "clients \<Rightarrow> string" where
  "getActiveUsers cs =
     (let users = getActiveUsers_loop [] cs
      in if users = [] then ''No users online'' else users)"

text \<open>\<^verbatim>\<open>ChatServer::isValidUsername\<close>.\<close>

definition isValidUsername :: "string \<Rightarrow> bool" where
  "isValidUsername uname \<longleftrightarrow>
     \<not> (uname = [] \<or> length uname > 20) \<and>
     (\<forall>c \<in> set uname. \<not> (\<not> isalnum c \<and> c \<noteq> CHR ''_'' \<and> c \<noteq> CHR ''-''))"

section \<open>Sockets\<close>

text \<open>
  What a handler thread sees of its blocking stream socket. The inbound side is the
  sequence of what arrives: a batch of bytes, the peer's orderly close, or an error.
  \<^verbatim>\<open>recv(fd, buf, n, 0)\<close> returns at most \<open>n\<close> bytes of the first batch and leaves
  the rest of it for the next call; it returns \<open>0\<close> at a close (and once nothing more
  will ever arrive) and \<open>-1\<close> at an error.
\<close>

datatype segment = Data string | PeerClosed | RecvError

type_synonym stream = "segment list"

fun recv :: "nat \<Rightarrow> stream \<Rightarrow> int \<times> string \<times> stream" where
  "recv n [] = (0, [], [])"
| "recv n (PeerClosed # rest) = (0, [], rest)"
| "recv n (RecvError # rest) = (- 1, [], rest)"
| "recv n (Data bs # rest) =
     (int (length (take n bs)), take n bs,
      if length bs \<le> n then rest else Data (drop n bs) # rest)"

text \<open>What a handler does to the sockets, in order.\<close>

datatype action = Send int string | Close int

text \<open>
  The value \<^verbatim>\<open>send\<close> returns is looked at only in the relay loop. The return values of
  those calls are a script; once it is used up every call reports all its bytes sent.
\<close>

fun send_result :: "int list \<Rightarrow> string \<Rightarrow> int \<times> int list" where
  "send_result [] buf = (int (length buf), [])"
| "send_result (r # rs) buf = (r, rs)"

section \<open>The relay loop (file\_transfer.cpp)\<close>

definition CHUNK_SIZE :: nat where
  "CHUNK_SIZE = 8192"

record relay =
  success :: bool
  total_transferred :: int
  reads :: "(int \<times> string) list"
  writes :: "(string \<times> int) list"
  sender_in :: stream
  send_script :: "int list"

text \<open>
  The \<^verbatim>\<open>while\<close> loop of \<^verbatim>\<open>FileTransferHandler::streamFileData\<close>. \<open>reads\<close> logs
  every \<^verbatim>\<open>recv\<close> of the loop (the value returned and the bytes put into the buffer),
  \<open>writes\<close> every \<^verbatim>\<open>send\<close> (the bytes handed over and the value returned). The
  progress lines go to \<^verbatim>\<open>std::cout\<close> only and no result depends on
  \<^verbatim>\<open>last_update\<close>.
\<close>

function streamFileData_loop ::
  "int \<Rightarrow> int \<Rightarrow> stream \<Rightarrow> int list \<Rightarrow> (int \<times> string) list \<Rightarrow> (string \<times> int) list \<Rightarrow> relay"
  where
  "streamFileData_loop file_size moved inb script rds wrs =
     (if moved < file_size then
        (let bytes_to_receive = min (nat (file_size - moved)) CHUNK_SIZE
         in case recv bytes_to_receive inb of
              (bytes_received, buffer, inb') \<Rightarrow>
                if bytes_received \<le> 0 then
                  \<lparr>success = False, total_transferred = moved,
                   reads = rds @ [(bytes_received, buffer)], writes = wrs,
                   sender_in = inb', send_script = script\<rparr>
                else
                  (case send_result script buffer of
                     (bytes_sent, script') \<Rightarrow>
                       if bytes_sent \<le> 0 then
                         \<lparr>success = False, total_transferred = moved,
                          reads = rds @ [(bytes_received, buffer)],
                          writes = wrs @ [(buffer, bytes_sent)],
                          sender_in = inb', send_script = script'\<rparr>
                       else
                         streamFileData_loop file_size (moved + bytes_received) inb' script'
                           (rds @ [(bytes_received, buffer)]) (wrs @ [(buffer, bytes_sent)])))
      else
        \<lparr>success = True, total_transferred = moved, reads = rds, writes = wrs,
         sender_in = inb, send_script = script\<rparr>)"
  by pat_completeness auto
termination
  by (relation "measure (\<lambda>(file_size, moved, inb, script, rds, wrs). nat (file_size - moved))") auto

declare streamFileData_loop.simps [simp del]

definition streamFileData ::
  "int \<Rightarrow> int \<Rightarrow> string \<Rightarrow> string \<Rightarrow> string \<Rightarrow> int \<Rightarrow> stream \<Rightarrow> int list \<Rightarrow> relay" where
  "streamFileData sender_socket recipient_socket sender_username recipient_username
     filename file_size inb script =
     streamFileData_loop file_size 0 inb script [] []"

section \<open>The server (server.cpp)\<close>

text \<open>
  \<^verbatim>\<open>std::stol(str)\<close> is \<^verbatim>\<open>strtol(str.c_str(), &end, 10)\<close>: white space is skipped,
  then an optional sign and the longest run of decimal digits are read, and what
  follows is ignored. It throws \<^verbatim>\<open>std::invalid_argument\<close> when there is no digit and
  \<^verbatim>\<open>std::out_of_range\<close> when the value does not fit a \<^verbatim>\<open>long\<close> (64 bits on the
  LP64 systems the POSIX socket code builds for).
\<close>

datatype exception = invalid_argument | out_of_range

definition LONG_MAX :: int where
  "LONG_MAX = 2 ^ 63 - 1"

definition LONG_MIN :: int where
  "LONG_MIN = - (2 ^ 63)"

definition c_str :: "string \<Rightarrow> string" where
  "c_str buf = takeWhile (\<lambda>c. c \<noteq> CHR 0x00) buf"

definition digits_value :: "string \<Rightarrow> int" where
  "digits_value ds = foldl (\<lambda>a c. a * 10 + (of_char c - 48)) 0 ds"

definition stol :: "string \<Rightarrow> exception + int" where
  "stol str =
     (let s1 = dropWhile isspace (c_str str);
          negative = (s1 \<noteq> [] \<and> hd s1 = CHR ''-'');
          s2 = (if s1 \<noteq> [] \<and> (hd s1 = CHR ''-'' \<or> hd s1 = CHR ''+'') then tl s1 else s1);
          ds = takeWhile isdigit s2
      in if ds = [] then Inl invalid_argument
         else (let v = (if negative then - digits_value ds else digits_value ds)
               in if v < LONG_MIN \<or> LONG_MAX < v then Inl out_of_range else Inr v))"

text \<open>\<^verbatim>\<open>str.find(ch, pos)\<close> and \<^verbatim>\<open>str.find(p) == 0\<close>.\<close>

fun find_char :: "string \<Rightarrow> char \<Rightarrow> nat \<Rightarrow> nat option" where
  "find_char [] ch pos = None"
| "find_char (c # cs) ch pos =
     (if pos = 0 \<and> c = ch then Some 0 else map_option Suc (find_char cs ch (pos - 1)))"

definition starts_with :: "string \<Rightarrow> string \<Rightarrow> bool" where
  "starts_with str p \<longleftrightarrow> take (length p) str = p"

text \<open>
  \<^verbatim>\<open>ChatServer::handleFileTransfer\<close>. The two \<^verbatim>\<open>sleep_for\<close> calls only pass time.
  The check mark of the completion notice is the three bytes of its UTF-8 encoding.
\<close>

definition complete_msg :: string where
  "complete_msg = ''[FILE] '' @ [CHR 0xE2, CHR 0x9C, CHR 0x93] @ '' Transfer complete!''"

definition handleFileTransfer ::
  "clients \<Rightarrow> int \<Rightarrow> string \<Rightarrow> string \<Rightarrow> string \<Rightarrow> int \<Rightarrow> stream \<Rightarrow> int list
     \<Rightarrow> action list \<times> stream \<times> int list" where
  "handleFileTransfer cs sender_socket sender_username recipient_username filename file_size
     inb script =
     (let recipient_socket =
            (case clients_find cs recipient_username of
               Some ci \<Rightarrow> socket_fd ci
             | None \<Rightarrow> - 1)
      in if recipient_socket = - 1 then
           ([Send sender_socket
               (''ERROR: User '' @ [CHR 0x27] @ recipient_username @ [CHR 0x27] @ '' is not online'')],
            inb, script)
         else
           (let file_offer = ''/file_offer from '' @ sender_username @ '' ('' @ filename @ '', ''
                               @ formatFileSize file_size @ '') - Accept? (y/n)'';
                file_data_msg = ''/file_data '' @ sender_username @ '' '' @ filename @ '' ''
                                  @ to_string file_size;
                r = streamFileData sender_socket recipient_socket sender_username
                      recipient_username filename file_size inb script;
                final_msg = (if success r then complete_msg else ''ERROR: File transfer failed'')
            in ([Send recipient_socket file_offer, Send recipient_socket file_data_msg]
                  @ map (\<lambda>w. Send recipient_socket (fst w)) (writes r)
                  @ [Send sender_socket final_msg, Send recipient_socket final_msg],
                sender_in r, send_script r)))"

text \<open>\<^verbatim>\<open>ChatServer::broadcast\<close>: every entry but the sender's, in map order.\<close>

definition broadcast :: "clients \<Rightarrow> string \<Rightarrow> string \<Rightarrow> action list" where
  "broadcast cs message sender =
     (let encrypted_message = encrypt_if_enabled message
      in map (\<lambda>p. Send (socket_fd (snd p)) encrypted_message)
           (filter (\<lambda>p. fst p \<noteq> sender) cs))"

text \<open>\<^verbatim>\<open>ChatServer::sendPrivateMessage\<close>.\<close>

definition sendPrivateMessage :: "clients \<Rightarrow> string \<Rightarrow> string \<Rightarrow> string \<Rightarrow> action list" where
  "sendPrivateMessage cs target message sender =
     (case clients_find cs target of
        Some ti \<Rightarrow>
          (let to_recipient = encrypt_if_enabled (''[PRIVATE] '' @ sender @ '' -> You: '' @ message);
               to_sender = encrypt_if_enabled (''[PRIVATE] You -> '' @ target @ '': '' @ message)
           in Send (socket_fd ti) to_recipient #
              (case clients_find cs sender of
                 Some si \<Rightarrow> [Send (socket_fd si) to_sender]
               | None \<Rightarrow> []))
      | None \<Rightarrow>
          (let error_msg = encrypt_if_enabled
                 (''ERROR: User '' @ [CHR 0x27] @ target @ [CHR 0x27] @ '' not found or offline'')
           in case clients_find cs sender of
                Some si \<Rightarrow> [Send (socket_fd si) error_msg]
              | None \<Rightarrow> []))"

text \<open>
  \<^verbatim>\<open>ChatServer::processMessage\<close>. \<open>Inl e\<close>: the exception \<open>e\<close> thrown by
  \<^verbatim>\<open>std::stol\<close> leaves the function (nothing in it catches). \<open>Inr\<close>: it returns, with
  what it sent and what is left of the sender's inbound stream and of the send script.
\<close>

definition MAX_SIZE :: int where
  "MAX_SIZE = 10 * 1024 * 1024"

definition processMessage ::
  "clients \<Rightarrow> string \<Rightarrow> string \<Rightarrow> int \<Rightarrow> stream \<Rightarrow> int list
     \<Rightarrow> exception + (action list \<times> stream \<times> int list)" where
  "processMessage cs message sender_username sender_socket inb script =
     (if message = ''/list'' then
        Inr ([Send sender_socket (encrypt_if_enabled (''Active users: '' @ getActiveUsers cs))],
             inb, script)
      else if starts_with message ''@'' then
        (case find_char message (CHR '' '') 1 of
           Some first_space \<Rightarrow>
             (let target = substr message 1 (first_space - 1);
                  content = drop (first_space + 1) message
              in Inr (sendPrivateMessage cs target content sender_username, inb, script))
         | None \<Rightarrow>
             Inr ([Send sender_socket
                     (encrypt_if_enabled ''ERROR: Invalid format. Use: @username message'')],
                  inb, script))
      else if starts_with message ''/sendfile'' then
        (let parts = split message (CHR '' '')
         in if length parts < 4 then
              Inr ([Send sender_socket
                      (encrypt_if_enabled ''Usage: /sendfile <username> <filename> <file_size>'')],
                   inb, script)
            else
              (let target_user = parts ! 1;
                   filename = parts ! 2
               in case stol (parts ! 3) of
                    Inl e \<Rightarrow> Inl e
                  | Inr file_size \<Rightarrow>
                      if file_size \<le> 0 \<or> file_size > MAX_SIZE then
                        Inr ([Send sender_socket
                                (encrypt_if_enabled ''ERROR: Invalid file size (max 10MB)'')],
                             inb, script)
                      else
                        Inr (handleFileTransfer cs sender_socket sender_username target_user
                               filename file_size inb script)))
      else if message = ''/quit'' then
        Inr ([Send sender_socket (encrypt_if_enabled (''Goodbye '' @ sender_username @ ''!''))],
             inb, script)
      else
        Inr (broadcast cs (sender_username @ '': '' @ message) sender_username, inb, script))"

text \<open>
  The bytes and batches still to come on a stream: every \<^const>\<open>recv\<close> that returns
  something makes it smaller, which bounds the loops that read the socket.
\<close>

fun segment_size :: "segment \<Rightarrow> nat" where
  "segment_size (Data bs) = Suc (length bs)"
| "segment_size PeerClosed = 1"
| "segment_size RecvError = 1"

definition stream_size :: "stream \<Rightarrow> nat" where
  "stream_size inb = sum_list (map segment_size inb)"

lemma recv_stream_size_le:
  "recv n inb = (r, buf, inb') \<Longrightarrow> stream_size inb' \<le> stream_size inb"
  by (induction n inb rule: recv.induct) (auto simp: stream_size_def split: if_splits)

lemma recv_stream_size_less:
  "recv n inb = (r, buf, inb') \<Longrightarrow> 0 < r \<Longrightarrow> stream_size inb' < stream_size inb"
  by (induction n inb rule: recv.induct) (auto simp: stream_size_def split: if_splits)

lemma streamFileData_loop_stream_size:
  "stream_size (sender_in (streamFileData_loop fs moved inb script rds wrs)) \<le> stream_size inb"
proof (induction fs moved inb script rds wrs rule: streamFileData_loop.induct)
  case (1 fs moved inb script rds wrs)
  show ?case
  proof (cases "moved < fs")
    case False
    then show ?thesis by (simp add: streamFileData_loop.simps)
  next
    case True
    obtain r buf inb' where rv: "recv (min (nat (fs - moved)) CHUNK_SIZE) inb = (r, buf, inb')"
      by (cases "recv (min (nat (fs - moved)) CHUNK_SIZE) inb") auto
    obtain s script' where sr: "send_result script buf = (s, script')"
      by (cases "send_result script buf") auto
    have le: "stream_size inb' \<le> stream_size inb"
      using rv by (rule recv_stream_size_le)
    show ?thesis
    proof (cases "r \<le> 0 \<or> s \<le> 0")
      case True
      with \<open>moved < fs\<close> rv sr le show ?thesis
        by (subst streamFileData_loop.simps) (auto simp: Let_def)
    next
      case False
      then have "stream_size (sender_in (streamFileData_loop fs (moved + r) inb' script'
                   (rds @ [(r, buf)]) (wrs @ [(buf, s)]))) \<le> stream_size inb'"
        using "1.IH" [OF \<open>moved < fs\<close> refl rv [symmetric] refl _ sr [symmetric]] by simp
      with False \<open>moved < fs\<close> rv sr le show ?thesis
        by (subst streamFileData_loop.simps) (auto simp: Let_def)
    qed
  qed
qed

lemma handleFileTransfer_stream_size:
  "handleFileTransfer cs ss su ru fn fs inb script = (acts, inb', script')
     \<Longrightarrow> stream_size inb' \<le> stream_size inb"
  using streamFileData_loop_stream_size [of fs 0 inb script "[]" "[]"]
  by (auto simp: handleFileTransfer_def streamFileData_def Let_def split: if_splits)

lemma processMessage_stream_size:
  "processMessage cs message su ss inb script = Inr (acts, inb', script')
     \<Longrightarrow> stream_size inb' \<le> stream_size inb"
  by (auto simp: processMessage_def Let_def
        split: if_splits option.splits sum.splits dest: handleFileTransfer_stream_size)

text \<open>
  PHASE 1 of \<^verbatim>\<open>ChatServer::handleClient\<close>, from the received buffer on. The buffer is
  NUL-terminated and converted from \<^verbatim>\<open>char*\<close>, so the name ends at its first NUL
  byte. \<open>Inl\<close> is the error message of a rejected connection, \<open>Inr\<close> the accepted name.
\<close>

definition authenticate :: "clients \<Rightarrow> string \<Rightarrow> string + string" where
  "authenticate cs buffer =
     (let uname = trim (c_str buffer)
      in if uname = [] \<or> \<not> isValidUsername uname then
           Inl ''ERROR: Invalid username. Use only alphanumeric, _, and -''
         else if clients_find cs uname \<noteq> None then
           Inl (''ERROR: Username '' @ [CHR 0x27] @ uname @ [CHR 0x27] @ '' is already taken'')
         else Inr uname)"

text \<open>
  PHASE 3, the message loop, while \<^verbatim>\<open>running\<close> stays true. The result is what was
  sent and, when \<^verbatim>\<open>processMessage\<close> threw, the exception: the loop has no handler
  for it (the only \<^verbatim>\<open>try\<close> is around \<^verbatim>\<open>Encryption::decrypt\<close>, which does not throw).
\<close>

function message_loop ::
  "clients \<Rightarrow> string \<Rightarrow> int \<Rightarrow> stream \<Rightarrow> int list \<Rightarrow> action list \<times> exception option" where
  "message_loop cs uname client_socket inb script =
     (case recv 4095 inb of
        (bytes_read, buffer, inb1) \<Rightarrow>
          if bytes_read \<le> 0 then ([], None)
          else
            (let message = trim (if isEnabled \<and> length buffer > 0
                                 then decrypt buffer DEFAULT_KEY else buffer)
             in if message = [] then message_loop cs uname client_socket inb1 script
                else
                  (case processMessage cs message uname client_socket inb1 script of
                     Inl e \<Rightarrow> ([], Some e)
                   | Inr (acts, inb2, script2) \<Rightarrow>
                       if message = ''/quit'' then (acts, None)
                       else
                         (case message_loop cs uname client_socket inb2 script2 of
                            (acts', e) \<Rightarrow> (acts @ acts', e)))))"
  by pat_completeness auto
termination
  apply (relation "measure (\<lambda>(cs, uname, client_socket, inb, script). stream_size inb)")
    apply simp
   apply (auto dest: recv_stream_size_less [OF sym])[1]
  apply (auto dest!: recv_stream_size_less [OF sym] processMessage_stream_size)
  done

declare message_loop.simps [simp del]

text \<open>
  \<^verbatim>\<open>ChatServer::handleClient\<close>, run without other threads in between. \<open>uncaught\<close>
  is the exception that left the thread function, at which the C++ runtime calls
  \<^verbatim>\<open>std::terminate\<close> and the server process ends; the cleanup of PHASE 4 is not
  reached then.
\<close>

record handler =
  trace :: "action list"
  registry :: clients
  uncaught :: "exception option"

definition welcome_msg :: "string \<Rightarrow> string" where
  "welcome_msg uname =
     encrypt_if_enabled
       (''Welcome '' @ uname @ ''! Type /list, /quit, @user msg, /sendfile user file'')"

definition handleClient :: "clients \<Rightarrow> int \<Rightarrow> sockaddr_in \<Rightarrow> stream \<Rightarrow> int list \<Rightarrow> handler" where
  "handleClient cs client_socket client_addr inb script =
     (case recv 4095 inb of
        (bytes_read, buffer, inb1) \<Rightarrow>
          if bytes_read \<le> 0 then
            \<lparr>trace = [Close client_socket], registry = cs, uncaught = None\<rparr>
          else
            (case authenticate cs buffer of
               Inl error_msg \<Rightarrow>
                 \<lparr>trace = [Send client_socket error_msg, Close client_socket],
                  registry = cs, uncaught = None\<rparr>
             | Inr uname \<Rightarrow>
                 (let client_info = \<lparr>socket_fd = client_socket, username = uname,
                                     address = client_addr\<rparr>;
                      cs1 = registerClient uname client_info cs;
                      joined = Send client_socket (welcome_msg uname)
                                 # broadcast cs1 (uname @ '' joined the chat!'') uname
                  in case message_loop cs1 uname client_socket inb1 script of
                       (acts, Some e) \<Rightarrow>
                         \<lparr>trace = joined @ acts, registry = cs1, uncaught = Some e\<rparr>
                     | (acts, None) \<Rightarrow>
                         \<lparr>trace = joined @ acts @ broadcast cs1 (uname @ '' left the chat'') uname
                                    @ [Close client_socket],
                          registry = deregisterClient uname cs1, uncaught = None\<rparr>)))"

section \<open>Reachable registries\<close>

text \<open>
  The map is changed by \<^const>\<open>registerClient\<close> and \<^const>\<open>deregisterClient\<close> only, so
  the registries the server can be in are those reached from the empty map by a
  sequence of these two. \<^verbatim>\<open>handleClient\<close> registers only names that passed
  \<^const>\<open>authenticate\<close>, which are not empty.
\<close>

datatype registry_op = Register string ClientInfo | Deregister string

fun apply_op :: "clients \<Rightarrow> registry_op \<Rightarrow> clients" where
  "apply_op cs (Register u c) = registerClient u c cs"
| "apply_op cs (Deregister u) = deregisterClient u cs"

fun op_name_nonempty :: "registry_op \<Rightarrow> bool" where
  "op_name_nonempty (Register u c) \<longleftrightarrow> u \<noteq> []"
| "op_name_nonempty (Deregister u) \<longleftrightarrow> True"

definition registry_after :: "registry_op list \<Rightarrow> clients" where
  "registry_after ops = foldl apply_op [] ops"

text \<open>The names of a list written one after the other with a separator in between.\<close>

fun join_with :: "string \<Rightarrow> string list \<Rightarrow> string" where
  "join_with sep [] = []"
| "join_with sep [x] = x"
| "join_with sep (x # y # xs) = x @ sep @ join_with sep (y # xs)"

section \<open>The character set of identities\<close>

text \<open>The characters an identity may consist of: \<open>A\<close>--\<open>Z\<close>, \<open>a\<close>--\<open>z\<close>, \<open>0\<close>--\<open>9\<close>, \<open>_\<close> and \<open>-\<close>.\<close>

definition identity_charset :: "char set" where
  "identity_charset =
     set (''ABCDEFGHIJKLMNOPQRSTUVWXYZ'' @ ''abcdefghijklmnopqrstuvwxyz'' @ ''0123456789'' @ ''_-'')"

section \<open>What the relay loop maintains\<close>

text \<open>
  The facts about a result of the relay loop that the loop keeps true: every chunk is
  at most \<^const>\<open>CHUNK_SIZE\<close> bytes, the buffers handed to \<^verbatim>\<open>send\<close> are the buffers
  of the reads that returned something, and success coincides with having moved the
  declared size with no read or write returning zero or less.
\<close>

definition relay_ok :: "int \<Rightarrow> relay \<Rightarrow> bool" where
  "relay_ok file_size r \<longleftrightarrow>
     (\<forall>x \<in> set (reads r). fst x \<le> int CHUNK_SIZE \<and> length (snd x) \<le> CHUNK_SIZE) \<and>
     map fst (writes r) = map snd (filter (\<lambda>x. 0 < fst x) (reads r)) \<and>
     (success r \<longleftrightarrow> total_transferred r = file_size \<and> (\<forall>w \<in> set (writes r). 0 < snd w)) \<and>
     ((\<exists>x \<in> set (reads r). fst x \<le> 0) \<or> (\<exists>w \<in> set (writes r). snd w \<le> 0) \<longleftrightarrow>
        \<not> success r \<and> total_transferred r < file_size) \<and>
     (success r \<longrightarrow> int (length (concat (map fst (writes r)))) = file_size)"

text \<open>
  The bytes a stream still holds, in order; whether the next \<^const>\<open>recv\<close> on it returns
  nothing; and the bytes the recipient's socket took, \<^verbatim>\<open>send\<close> returning the number
  of bytes it accepted from the front of the buffer.
\<close>

fun segment_data :: "segment \<Rightarrow> string" where
  "segment_data (Data bs) = bs"
| "segment_data PeerClosed = []"
| "segment_data RecvError = []"

definition stream_data :: "stream \<Rightarrow> string" where
  "stream_data inb = concat (map segment_data inb)"

fun stalls :: "stream \<Rightarrow> bool" where
  "stalls [] = True"
| "stalls (Data bs # rest) = (bs = [])"
| "stalls (PeerClosed # rest) = True"
| "stalls (RecvError # rest) = True"

definition delivered :: "relay \<Rightarrow> string" where
  "delivered r = concat (map (\<lambda>w. take (nat (snd w)) (fst w)) (writes r))"

section \<open>Handler threads side by side\<close>

text \<open>
  \<^verbatim>\<open>ChatServer::run\<close> starts one detached thread per accepted connection, each
  running \<^verbatim>\<open>handleClient\<close>. Threads meet only at the map, and every access to it is
  inside a \<^verbatim>\<open>std::lock_guard\<close> on \<^verbatim>\<open>clients_mutex\<close>, so a run of the server is an
  interleaving of the threads' critical sections. Up to the message loop these are, per
  thread: the duplicate check of PHASE 1 (with the validation before it, which touches
  no shared state), \<^verbatim>\<open>registerClient\<close>, and the \<^verbatim>\<open>broadcast\<close> of the join
  notice (with the welcome sent before it). \<open>pc\<close> says which of them a thread does next.
\<close>

datatype pc = Received string | Checked string | Registered string | Active string | Closed

record thread =
  t_socket :: int
  t_addr :: sockaddr_in
  t_pc :: pc

record system =
  sys_clients :: clients
  sys_threads :: "thread list"
  sys_trace :: "action list"

text \<open>One critical section of one thread.\<close>

definition thread_step :: "clients \<Rightarrow> thread \<Rightarrow> clients \<times> thread \<times> action list" where
  "thread_step cs t =
     (case t_pc t of
        Received buffer \<Rightarrow>
          (case authenticate cs buffer of
             Inl error_msg \<Rightarrow>
               (cs, t\<lparr>t_pc := Closed\<rparr>, [Send (t_socket t) error_msg, Close (t_socket t)])
           | Inr uname \<Rightarrow> (cs, t\<lparr>t_pc := Checked uname\<rparr>, []))
      | Checked uname \<Rightarrow>
          (registerClient uname
             \<lparr>socket_fd = t_socket t, username = uname, address = t_addr t\<rparr> cs,
           t\<lparr>t_pc := Registered uname\<rparr>, [])
      | Registered uname \<Rightarrow>
          (cs, t\<lparr>t_pc := Active uname\<rparr>,
           Send (t_socket t) (welcome_msg uname)
             # broadcast cs (uname @ '' joined the chat!'') uname)
      | Active uname \<Rightarrow> (cs, t, [])
      | Closed \<Rightarrow> (cs, t, []))"

text \<open>Thread \<open>i\<close> runs its next critical section; a schedule is the order of such turns.\<close>

definition step :: "system \<Rightarrow> nat \<Rightarrow> system" where
  "step s i =
     (if i < length (sys_threads s) then
        (case thread_step (sys_clients s) (sys_threads s ! i) of
           (cs', t', acts) \<Rightarrow>
             \<lparr>sys_clients = cs', sys_threads = (sys_threads s)[i := t'],
              sys_trace = sys_trace s @ acts\<rparr>)
      else s)"

definition run :: "nat list \<Rightarrow> system \<Rightarrow> system" where
  "run schedule s = foldl step s schedule"

text \<open>Two connections whose first payload is the same name, on an empty registry.\<close>

definition two_claimants :: system where
  "two_claimants =
     \<lparr>sys_clients = [],
      sys_threads = [\<lparr>t_socket = 4, t_addr = (1, 1), t_pc = Received ''alice''\<rparr>,
                     \<lparr>t_socket = 5, t_addr = (2, 2), t_pc = Received ''alice''\<rparr>],
      sys_trace = []\<rparr>"

section \<open>Properties of the registry\<close>

lemma clients_erase_absent:
  "clients_find cs x = None \<Longrightarrow> clients_erase x cs = cs"
  by (induction cs) (auto simp: clients_find_def clients_erase_def split: if_splits)

text \<open>
  C9. \<^verbatim>\<open>deregisterClient\<close> is idempotent: for every identity \<open>x\<close> and every registry
  state, deregistering \<open>x\<close> twice in a row leaves the registry as deregistering it once
  does, and deregistering an identity the registry does not contain changes nothing.
\<close>

theorem deregisterClient_idempotent:
  "deregisterClient x (deregisterClient x cs) = deregisterClient x cs \<and>
   (clients_find cs x = None \<longrightarrow> deregisterClient x cs = cs)"
  by (simp add: deregisterClient_def clients_erase_absent) (simp add: clients_erase_def)

theorem deregisterClient_idempotent_witness:
  "clients_find [(''alice'', \<lparr>socket_fd = 4, username = ''alice'', address = (0, 0)\<rparr>)] ''bob'' = None \<and>
   deregisterClient ''bob'' [(''alice'', \<lparr>socket_fd = 4, username = ''alice'', address = (0, 0)\<rparr>)]
     = [(''alice'', \<lparr>socket_fd = 4, username = ''alice'', address = (0, 0)\<rparr>)] \<and>
   deregisterClient ''alice''
     (deregisterClient ''alice'' [(''alice'', \<lparr>socket_fd = 4, username = ''alice'', address = (0, 0)\<rparr>)])
     = []"
  using deregisterClient_idempotent
    [of "''bob''" "[(''alice'', \<lparr>socket_fd = 4, username = ''alice'', address = (0, 0)\<rparr>)]"]
    deregisterClient_idempotent
    [of "''alice''" "[(''alice'', \<lparr>socket_fd = 4, username = ''alice'', address = (0, 0)\<rparr>)]"]
  by (simp add: clients_find_def deregisterClient_def clients_erase_def)

lemma set_clients_assign:
  "fst ` set (clients_assign k v cs) = insert k (fst ` set cs)"
  by (induction cs) force+

lemma clients_assign_wf:
  "clients_wf cs \<Longrightarrow> clients_wf (clients_assign k v cs)"
proof (induction cs)
  case Nil
  then show ?case by (simp add: clients_wf_def)
next
  case (Cons p cs)
  obtain k' v' where p: "p = (k', v')" by (cases p)
  from Cons.prems have wf: "clients_wf cs"
    by (simp add: clients_wf_def)
  have keys: "fst ` set (clients_assign k v cs) = insert k (fst ` set cs)"
    by (rule set_clients_assign)
  show ?case
  proof (cases "k < k'")
    case True
    with Cons.prems p show ?thesis
      by (auto simp: clients_wf_def)
  next
    case False
    show ?thesis
    proof (cases "k = k'")
      case True
      with Cons.prems p show ?thesis by (auto simp: clients_wf_def)
    next
      case neq: False
      with False have "k' < k" by simp
      with Cons.IH [OF wf] Cons.prems p False neq keys show ?thesis
        by (auto simp: clients_wf_def)
    qed
  qed
qed

lemma clients_erase_wf:
  "clients_wf cs \<Longrightarrow> clients_wf (clients_erase k cs)"
  by (simp add: clients_wf_def clients_erase_def sorted_filter distinct_map_filter)

lemma registry_after_inv:
  "\<forall>op \<in> set ops. op_name_nonempty op \<Longrightarrow>
     clients_wf (registry_after ops) \<and> [] \<notin> fst ` set (registry_after ops)"
proof (induction ops rule: rev_induct)
  case Nil
  then show ?case by (simp add: registry_after_def clients_wf_def)
next
  case (snoc op ops)
  then have ih: "clients_wf (registry_after ops)" "[] \<notin> fst ` set (registry_after ops)"
    by auto
  show ?case
  proof (cases op)
    case (Register u c)
    with snoc.prems have "u \<noteq> []" by simp
    with ih Register show ?thesis
      by (simp add: registry_after_def registerClient_def clients_assign_wf set_clients_assign)
  next
    case (Deregister u)
    have "fst ` set (clients_erase u (registry_after ops)) \<subseteq> fst ` set (registry_after ops)"
      by (auto simp: clients_erase_def)
    with ih Deregister show ?thesis
      by (auto simp: registry_after_def deregisterClient_def clients_erase_wf)
  qed
qed

lemma getActiveUsers_loop_join:
  "[] \<notin> fst ` set cs \<Longrightarrow>
     getActiveUsers_loop users cs =
       (if cs = [] then users
        else if users = [] then join_with '', '' (map fst cs)
        else users @ '', '' @ join_with '', '' (map fst cs))"
proof (induction cs arbitrary: users)
  case Nil
  then show ?case by simp
next
  case (Cons p cs)
  then have "fst p \<noteq> []" "[] \<notin> fst ` set cs" by auto
  with Cons.IH [of "(if users \<noteq> [] then users @ '', '' else users) @ fst p"]
  show ?case by (cases cs) auto
qed

lemma join_with_nonempty: "xs \<noteq> [] \<Longrightarrow> [] \<notin> set xs \<Longrightarrow> join_with sep xs \<noteq> []"
  by (induction sep xs rule: join_with.induct) auto

text \<open>
  C8, as stated: on an empty registry the listing is the string \<open>no users online\<close>.
  The code's sentinel is spelled with a capital N.
\<close>

theorem getActiveUsers_sentinel_counterexample:
  "getActiveUsers [] \<noteq> ''no users online''"
  by (simp add: getActiveUsers_def)

text \<open>
  C8, amended. \<^verbatim>\<open>getActiveUsers\<close> returns one string: the registered identities in
  ascending bytewise order, separated by a comma and a space; on an empty registry it
  returns the sentinel \<open>No users online\<close>.
\<close>

theorem getActiveUsers_sorted:
  assumes "\<forall>op \<in> set ops. op_name_nonempty op"
  shows "getActiveUsers (registry_after ops) =
           (if registry_after ops = [] then ''No users online''
            else join_with '', '' (sorted_list_of_set (fst ` set (registry_after ops))))"
proof -
  let ?cs = "registry_after ops"
  from assms have wf: "clients_wf ?cs" and ne: "[] \<notin> fst ` set ?cs"
    using registry_after_inv by blast+
  from wf have keys: "sorted_list_of_set (fst ` set ?cs) = map fst ?cs"
    using sorted_list_of_set.idem_if_sorted_distinct [of "map fst ?cs"]
    by (simp add: clients_wf_def)
  show ?thesis
  proof (cases "?cs = []")
    case True
    then show ?thesis by (simp add: getActiveUsers_def)
  next
    case False
    with ne have "join_with '', '' (map fst ?cs) \<noteq> []"
      by (intro join_with_nonempty) auto
    with False ne keys show ?thesis
      by (simp add: getActiveUsers_def getActiveUsers_loop_join)
  qed
qed

theorem getActiveUsers_sorted_witness:
  "registry_after
     [Register ''bob'' \<lparr>socket_fd = 5, username = ''bob'', address = (0, 0)\<rparr>,
      Register ''alice'' \<lparr>socket_fd = 4, username = ''alice'', address = (0, 0)\<rparr>] \<noteq> [] \<and>
   getActiveUsers (registry_after
     [Register ''bob'' \<lparr>socket_fd = 5, username = ''bob'', address = (0, 0)\<rparr>,
      Register ''alice'' \<lparr>socket_fd = 4, username = ''alice'', address = (0, 0)\<rparr>]) = ''alice, bob''"
  using getActiveUsers_sorted
    [of "[Register ''bob'' \<lparr>socket_fd = 5, username = ''bob'', address = (0, 0)\<rparr>,
          Register ''alice'' \<lparr>socket_fd = 4, username = ''alice'', address = (0, 0)\<rparr>]"]
  by (simp add: registry_after_def registerClient_def getActiveUsers_def)

section \<open>Properties of trimming and of user names\<close>

lemma find_first_not_of_append:
  "find_first_not_of (xs @ ys) ch =
     (case find_first_not_of xs ch of
        Some i \<Rightarrow> Some i
      | None \<Rightarrow>
          (case find_first_not_of ys ch of
             Some i \<Rightarrow> Some (length xs + i)
           | None \<Rightarrow> None))"
  by (induction xs) (auto split: option.splits)

lemma find_last_not_of_append:
  "find_last_not_of (xs @ ys) ch =
     (case find_last_not_of ys ch of
        Some j \<Rightarrow> Some (length xs + j)
      | None \<Rightarrow> find_last_not_of xs ch)"
  by (induction xs) (auto split: option.splits)

lemma find_first_not_of_replicate [simp]: "find_first_not_of (replicate n ch) ch = None"
  by (induction n) auto

lemma find_last_not_of_replicate [simp]: "find_last_not_of (replicate n ch) ch = None"
  by (induction n) auto

lemma find_first_not_of_hd: "s \<noteq> [] \<Longrightarrow> hd s \<noteq> ch \<Longrightarrow> find_first_not_of s ch = Some 0"
  by (cases s) auto

lemma find_last_not_of_last:
  "s \<noteq> [] \<Longrightarrow> last s \<noteq> ch \<Longrightarrow> find_last_not_of s ch = Some (length s - 1)"
proof (induction s)
  case Nil
  then show ?case by simp
next
  case (Cons c s)
  show ?case
  proof (cases "s = []")
    case True
    with Cons.prems show ?thesis by simp
  next
    case False
    with Cons have "find_last_not_of s ch = Some (length s - 1)" by simp
    with False show ?thesis by (cases s) auto
  qed
qed

lemma trim_all_spaces: "trim (replicate n (CHR '' '')) = []"
  by (simp add: trim_def)

lemma trim_padded:
  assumes "s \<noteq> []" "hd s \<noteq> CHR '' ''" "last s \<noteq> CHR '' ''"
  shows "trim (replicate m (CHR '' '') @ s @ replicate n (CHR '' '')) = s"
proof -
  let ?sp = "CHR '' ''"
  have f: "find_first_not_of (replicate m ?sp @ s @ replicate n ?sp) ?sp = Some m"
    using assms by (simp add: find_first_not_of_append find_first_not_of_hd)
  have l: "find_last_not_of (replicate m ?sp @ s @ replicate n ?sp) ?sp = Some (m + (length s - 1))"
    using assms by (simp add: find_last_not_of_append find_last_not_of_last)
  from assms have "m + (length s - 1) - m + 1 = length s"
    by (cases s) auto
  with f l show ?thesis
    by (simp add: trim_def substr_def)
qed

lemma trim_unchanged:
  assumes "s \<noteq> []" "hd s \<noteq> CHR '' ''" "last s \<noteq> CHR '' ''"
  shows "trim s = s"
  using trim_padded [OF assms, of 0 0] by simp

lemma valid_char_facts:
  assumes "isalnum c \<or> c = CHR ''_'' \<or> c = CHR ''-''"
  shows "c \<noteq> CHR '' ''" "c \<noteq> CHR 0x00" "c \<noteq> CHR 0x0A" "c \<noteq> CHR 0x09" "c \<noteq> CHR 0x0D"
  using assms by (auto simp: isalnum_def isalpha_def isdigit_def)

lemma isValidUsername_iff:
  "isValidUsername u \<longleftrightarrow>
     1 \<le> length u \<and> length u \<le> 20 \<and> (\<forall>c \<in> set u. isalnum c \<or> c = CHR ''_'' \<or> c = CHR ''-'')"
  by (cases u) (auto simp: isValidUsername_def)

lemma c_str_no_nul: "CHR 0x00 \<notin> set s \<Longrightarrow> c_str s = s"
  by (auto simp: c_str_def)

section \<open>Properties of the handlers\<close>

text \<open>
  C6. For every transfer whose recipient identity is not in the registry when
  \<^verbatim>\<open>handleFileTransfer\<close> looks it up, the relay fails at once: the only thing sent is
  the "not online" error to the sender; no offer, no prepare signal and no file byte
  is sent to anyone, and nothing is read from the sender's stream.
\<close>

theorem recipient_offline:
  assumes "clients_find cs recipient_username = None"
  shows "handleFileTransfer cs sender_socket sender_username recipient_username filename
           file_size inb script =
         ([Send sender_socket
             (''ERROR: User '' @ [CHR 0x27] @ recipient_username @ [CHR 0x27] @ '' is not online'')],
          inb, script)"
  using assms by (simp add: handleFileTransfer_def)

theorem recipient_offline_witness:
  "clients_find [(''alice'', \<lparr>socket_fd = 4, username = ''alice'', address = (0, 0)\<rparr>)] ''bob'' = None \<and>
   handleFileTransfer [(''alice'', \<lparr>socket_fd = 4, username = ''alice'', address = (0, 0)\<rparr>)]
       4 ''alice'' ''bob'' ''report.txt'' 1024 [Data ''payload''] [] =
     ([Send 4 (''ERROR: User '' @ [CHR 0x27] @ ''bob'' @ [CHR 0x27] @ '' is not online'')],
      [Data ''payload''], [])"
  using recipient_offline
    [of "[(''alice'', \<lparr>socket_fd = 4, username = ''alice'', address = (0, 0)\<rparr>)]" "''bob''"
        4 "''alice''" "''report.txt''" 1024 "[Data ''payload'']" "[]"]
  by (simp add: clients_find_def)

text \<open>
  C10. Trimming removes only space characters (\<open>0x20\<close>), not tabs, carriage returns or
  newlines: for every first payload that is a valid identity followed by a newline, a
  tab or a carriage return, the trimmed name is the whole payload, and the handler
  rejects it as an invalid username and closes the connection, the registry unchanged.
\<close>

theorem trailing_whitespace_rejected:
  assumes "isValidUsername u" and "c = CHR 0x0A \<or> c = CHR 0x09 \<or> c = CHR 0x0D"
  shows "trim (u @ [c]) = u @ [c] \<and>
         handleClient cs client_socket client_addr (Data (u @ [c]) # rest) script =
           \<lparr>trace = [Send client_socket
                       ''ERROR: Invalid username. Use only alphanumeric, _, and -'',
                     Close client_socket],
            registry = cs, uncaught = None\<rparr>"
proof -
  from assms(1) have len: "1 \<le> length u" "length u \<le> 20"
    and chars: "\<forall>x \<in> set u. isalnum x \<or> x = CHR ''_'' \<or> x = CHR ''-''"
    by (simp_all add: isValidUsername_iff)
  from len have ne: "u \<noteq> []" by auto
  then have "hd u \<in> set u" by simp
  with chars have hd: "hd (u @ [c]) \<noteq> CHR '' ''"
    using ne valid_char_facts(1) by auto
  from assms(2) have last: "last (u @ [c]) \<noteq> CHR '' ''" by auto
  have tr: "trim (u @ [c]) = u @ [c]"
    using hd last by (intro trim_unchanged) simp_all
  from chars assms(2) have "CHR 0x00 \<notin> set (u @ [c])"
    using valid_char_facts(2) by auto
  then have cs: "c_str (u @ [c]) = u @ [c]" by (rule c_str_no_nul)
  from assms(2) have "\<not> (isalnum c \<or> c = CHR ''_'' \<or> c = CHR ''-'')"
    by (auto simp: isalnum_def isalpha_def isdigit_def)
  then have inv: "\<not> isValidUsername (u @ [c])"
    by (simp add: isValidUsername_iff)
  have auth: "authenticate cs (u @ [c]) =
                Inl ''ERROR: Invalid username. Use only alphanumeric, _, and -''"
    using tr cs inv by (simp add: authenticate_def)
  from len have rv: "recv 4095 (Data (u @ [c]) # rest) = (int (length u) + 1, u @ [c], rest)"
    by simp
  from rv auth tr show ?thesis
    by (simp add: handleClient_def)
qed

theorem trailing_whitespace_rejected_witness:
  "isValidUsername ''alice'' \<and>
   trim (''alice'' @ [CHR 0x0A]) = ''alice'' @ [CHR 0x0A] \<and>
   handleClient [] 7 (0, 0) [Data (''alice'' @ [CHR 0x0A])] [] =
     \<lparr>trace = [Send 7 ''ERROR: Invalid username. Use only alphanumeric, _, and -'', Close 7],
      registry = [], uncaught = None\<rparr>"
proof -
  have v: "isValidUsername ''alice''"
    by (simp add: isValidUsername_def isalnum_def isalpha_def isdigit_def)
  from trailing_whitespace_rejected [OF v, of "CHR 0x0A" "[]" 7 "(0, 0)" "[]" "[]"] v
  show ?thesis by simp
qed

section \<open>Authentication\<close>

lemma char_range_iff:
  assumes "map of_char s = [lo..<hi :: nat]"
  shows "c \<in> set s \<longleftrightarrow> lo \<le> of_char c \<and> (of_char c :: nat) < hi"
proof -
  have "c \<in> set s \<longleftrightarrow> (of_char c :: nat) \<in> set (map of_char s)"
    by (auto simp: image_iff)
  also have "\<dots> \<longleftrightarrow> lo \<le> of_char c \<and> (of_char c :: nat) < hi"
    unfolding assms by simp
  finally show ?thesis .
qed

lemma digit_codes: "map of_char ''0123456789'' = [48..<58 :: nat]"
  by code_simp

lemma upper_codes: "map of_char ''ABCDEFGHIJKLMNOPQRSTUVWXYZ'' = [65..<91 :: nat]"
  by code_simp

lemma lower_codes: "map of_char ''abcdefghijklmnopqrstuvwxyz'' = [97..<123 :: nat]"
  by code_simp

lemma isdigit_iff: "isdigit c \<longleftrightarrow> c \<in> set ''0123456789''"
  using char_range_iff [OF digit_codes, of c]
  by (simp only: isdigit_def less_eq_char_def) (simp, arith)

lemma isupper_iff:
  "CHR ''A'' \<le> c \<and> c \<le> CHR ''Z'' \<longleftrightarrow> c \<in> set ''ABCDEFGHIJKLMNOPQRSTUVWXYZ''"
  using char_range_iff [OF upper_codes, of c]
  by (simp only: less_eq_char_def) (simp, arith)

lemma islower_iff:
  "CHR ''a'' \<le> c \<and> c \<le> CHR ''z'' \<longleftrightarrow> c \<in> set ''abcdefghijklmnopqrstuvwxyz''"
  using char_range_iff [OF lower_codes, of c]
  by (simp only: less_eq_char_def) (simp, arith)

lemma valid_char_iff_charset:
  "isalnum c \<or> c = CHR ''_'' \<or> c = CHR ''-'' \<longleftrightarrow> c \<in> identity_charset"
  unfolding isalnum_def isalpha_def isdigit_iff isupper_iff islower_iff identity_charset_def
  by auto


lemma authenticate_cases:
  "authenticate cs buffer =
     (if isValidUsername (trim (c_str buffer)) \<and> clients_find cs (trim (c_str buffer)) = None
      then Inr (trim (c_str buffer))
      else if isValidUsername (trim (c_str buffer))
      then Inl (''ERROR: Username '' @ [CHR 0x27] @ trim (c_str buffer) @ [CHR 0x27]
                  @ '' is already taken'')
      else Inl ''ERROR: Invalid username. Use only alphanumeric, _, and -'')"
  by (auto simp: authenticate_def Let_def isValidUsername_def)

lemma recv_first_payload:
  "payload \<noteq> [] \<Longrightarrow>
     recv 4095 (Data payload # rest) =
       (int (length (take 4095 payload)), take 4095 payload,
        if length payload \<le> 4095 then rest else Data (drop 4095 payload) # rest) \<and>
     0 < int (length (take 4095 payload))"
  by (cases payload) auto

text \<open>
  C7, as stated: the first inbound payload is accepted only if it is 1--20 characters
  drawn from the identity character set. A payload of 25 bytes, most of them spaces, is
  accepted: the name is what remains after trimming.
\<close>

theorem padded_payload_accepted_counterexample:
  "length ''  bob                    '' = 25 \<and>
   CHR '' '' \<in> set ''  bob                    '' \<and> CHR '' '' \<notin> identity_charset \<and>
   handleClient [] 7 (0, 0) [Data ''  bob                    ''] [] =
     \<lparr>trace = [Send 7 ''Welcome bob! Type /list, /quit, @user msg, /sendfile user file'', Close 7],
      registry = [], uncaught = None\<rparr>"
  by code_simp

text \<open>
  C7, amended. For every new connection whose first \<^verbatim>\<open>recv\<close> returns a payload, the
  claimed identity is the payload (at most 4095 bytes of it) cut at its first NUL byte
  and stripped of leading and trailing spaces. It is accepted only if it is 1--20
  characters drawn from the identity character set and is not a key of the registry;
  the connection is then registered and welcomed. Otherwise the connection is sent
  exactly one error message and closed, and the registry is left as it was.
\<close>

theorem first_payload_authentication:
  assumes "payload \<noteq> []" and "uname = trim (c_str (take 4095 payload))"
  shows "(isValidUsername uname \<longleftrightarrow>
            1 \<le> length uname \<and> length uname \<le> 20 \<and> set uname \<subseteq> identity_charset) \<and>
         (isValidUsername uname \<and> clients_find cs uname = None \<longrightarrow>
            authenticate cs (take 4095 payload) = Inr uname \<and>
            (\<exists>acts. trace (handleClient cs client_socket client_addr (Data payload # rest) script) =
               Send client_socket (welcome_msg uname) # acts)) \<and>
         (\<not> (isValidUsername uname \<and> clients_find cs uname = None) \<longrightarrow>
            (\<exists>error_msg.
               authenticate cs (take 4095 payload) = Inl error_msg \<and>
               handleClient cs client_socket client_addr (Data payload # rest) script =
                 \<lparr>trace = [Send client_socket error_msg, Close client_socket],
                  registry = cs, uncaught = None\<rparr>))"
proof (intro conjI impI)
  show "isValidUsername uname \<longleftrightarrow>
          1 \<le> length uname \<and> length uname \<le> 20 \<and> set uname \<subseteq> identity_charset"
    by (auto simp: isValidUsername_iff valid_char_iff_charset)
next
  assume ok: "isValidUsername uname \<and> clients_find cs uname = None"
  with assms(2) show auth: "authenticate cs (take 4095 payload) = Inr uname"
    by (simp add: authenticate_cases)
  with recv_first_payload [OF assms(1), of rest]
  show "\<exists>acts. trace (handleClient cs client_socket client_addr (Data payload # rest) script) =
          Send client_socket (welcome_msg uname) # acts"
    by (auto simp: handleClient_def Let_def split: prod.splits option.splits)
next
  assume bad: "\<not> (isValidUsername uname \<and> clients_find cs uname = None)"
  with assms(2) obtain error_msg where auth: "authenticate cs (take 4095 payload) = Inl error_msg"
    by (cases "isValidUsername uname") (auto simp: authenticate_cases)
  with recv_first_payload [OF assms(1), of rest]
  show "\<exists>error_msg.
          authenticate cs (take 4095 payload) = Inl error_msg \<and>
          handleClient cs client_socket client_addr (Data payload # rest) script =
            \<lparr>trace = [Send client_socket error_msg, Close client_socket],
             registry = cs, uncaught = None\<rparr>"
    by (auto simp: handleClient_def)
qed

theorem first_payload_authentication_witness:
  "'' bob '' \<noteq> [] \<and> ''bob'' = trim (c_str (take 4095 '' bob '')) \<and>
   isValidUsername ''bob'' \<and>
   clients_find [(''alice'', \<lparr>socket_fd = 4, username = ''alice'', address = (0, 0)\<rparr>)] ''bob'' = None \<and>
   authenticate [(''alice'', \<lparr>socket_fd = 4, username = ''alice'', address = (0, 0)\<rparr>)]
     (take 4095 '' bob '') = Inr ''bob'' \<and>
   \<not> isValidUsername ''b b'' \<and> ''b b'' = trim (c_str (take 4095 '' b b'')) \<and>
   handleClient [(''alice'', \<lparr>socket_fd = 4, username = ''alice'', address = (0, 0)\<rparr>)] 7 (0, 0)
       [Data '' b b'', Data ''hello''] [] =
     \<lparr>trace = [Send 7 ''ERROR: Invalid username. Use only alphanumeric, _, and -'', Close 7],
      registry = [(''alice'', \<lparr>socket_fd = 4, username = ''alice'', address = (0, 0)\<rparr>)],
      uncaught = None\<rparr>"
proof -
  have p1: "'' bob '' \<noteq> []" and p2: "'' b b'' \<noteq> []"
    by simp_all
  have u1: "''bob'' = trim (c_str (take 4095 '' bob ''))"
    and u2: "''b b'' = trim (c_str (take 4095 '' b b''))"
    by (simp_all add: trim_def c_str_def substr_def)
  have v1: "isValidUsername ''bob''" and v2: "\<not> isValidUsername ''b b''"
    by (simp_all add: isValidUsername_def isalnum_def isalpha_def isdigit_def)
  have f: "clients_find [(''alice'', \<lparr>socket_fd = 4, username = ''alice'', address = (0, 0)\<rparr>)] ''bob'' = None"
    by (simp add: clients_find_def)
  from first_payload_authentication [OF p1 u1,
      of "[(''alice'', \<lparr>socket_fd = 4, username = ''alice'', address = (0, 0)\<rparr>)]" 7 "(0, 0)" "[]" "[]"]
    first_payload_authentication [OF p2 u2,
      of "[(''alice'', \<lparr>socket_fd = 4, username = ''alice'', address = (0, 0)\<rparr>)]" 7 "(0, 0)"
         "[Data ''hello'']" "[]"]
    u1 u2 v1 v2 f
  show ?thesis
    by (auto simp: authenticate_cases)
qed

section \<open>Properties of the relay loop\<close>

lemma recv_bounds:
  "recv n inb = (r, buf, inb') \<Longrightarrow>
     r \<le> int n \<and> length buf \<le> n \<and> (0 < r \<longrightarrow> r = int (length buf))"
  by (induction n inb rule: recv.induct) auto

lemma streamFileData_loop_ok:
  assumes "moved \<le> fs"
    and "\<forall>x \<in> set rds. 0 < fst x \<and> fst x \<le> int CHUNK_SIZE \<and> length (snd x) \<le> CHUNK_SIZE"
    and "\<forall>w \<in> set wrs. 0 < snd w"
    and "map fst wrs = map snd rds"
    and "moved = int (length (concat (map fst wrs)))"
  shows "relay_ok fs (streamFileData_loop fs moved inb script rds wrs)"
  using assms
proof (induction fs moved inb script rds wrs rule: streamFileData_loop.induct)
  case (1 fs moved inb script rds wrs)
  have flt: "filter (\<lambda>x. 0 < fst x) rds = rds"
    using "1.prems"(2) by (auto simp: filter_id_conv)
  show ?case
  proof (cases "moved < fs")
    case False
    with "1.prems" flt show ?thesis
      by (subst streamFileData_loop.simps) (auto simp: relay_ok_def)
  next
    case True
    let ?n = "min (nat (fs - moved)) CHUNK_SIZE"
    obtain r buf inb' where rv: "recv ?n inb = (r, buf, inb')"
      by (cases "recv ?n inb") auto
    obtain s script' where sr: "send_result script buf = (s, script')"
      by (cases "send_result script buf") auto
    from recv_bounds [OF rv] have rb: "r \<le> int ?n" "length buf \<le> ?n" "0 < r \<longrightarrow> r = int (length buf)"
      by auto
    from rb True have rc: "r \<le> int CHUNK_SIZE" "length buf \<le> CHUNK_SIZE" "moved + r \<le> fs"
      by auto
    show ?thesis
    proof (cases "r \<le> 0")
      case True
      with \<open>moved < fs\<close> rv "1.prems" flt rc show ?thesis
        by (subst streamFileData_loop.simps) (auto simp: relay_ok_def Let_def)
    next
      case rpos: False
      show ?thesis
      proof (cases "s \<le> 0")
        case True
        with rpos \<open>moved < fs\<close> rv sr "1.prems" flt rc show ?thesis
          by (subst streamFileData_loop.simps) (auto simp: relay_ok_def Let_def)
      next
        case spos: False
        have "relay_ok fs (streamFileData_loop fs (moved + r) inb' script'
                (rds @ [(r, buf)]) (wrs @ [(buf, s)]))"
        proof (rule "1.IH" [OF \<open>moved < fs\<close> refl rv [symmetric] refl rpos sr [symmetric] spos])
          show "moved + r \<le> fs" by (rule rc)
          show "\<forall>x\<in>set (rds @ [(r, buf)]). 0 < fst x \<and> fst x \<le> int CHUNK_SIZE \<and> length (snd x) \<le> CHUNK_SIZE"
            using "1.prems"(2) rpos rc by auto
          show "\<forall>w\<in>set (wrs @ [(buf, s)]). 0 < snd w"
            using "1.prems"(3) spos by auto
          show "map fst (wrs @ [(buf, s)]) = map snd (rds @ [(r, buf)])"
            using "1.prems"(4) by simp
          show "moved + r = int (length (concat (map fst (wrs @ [(buf, s)]))))"
            using "1.prems"(5) rb rpos by simp
        qed
        with rpos spos \<open>moved < fs\<close> rv sr show ?thesis
          by (subst streamFileData_loop.simps) (simp add: Let_def)
      qed
    qed
  qed
qed

lemma recv_stream_data:
  "recv n inb = (r, buf, inb') \<Longrightarrow> buf @ stream_data inb' = stream_data inb"
  by (induction n inb rule: recv.induct) (auto simp: stream_data_def split: if_splits)

lemma recv_stalls:
  "stalls inb \<Longrightarrow> recv n inb = (r, buf, inb') \<Longrightarrow> r \<le> 0"
  by (induction n inb rule: recv.induct) auto

lemma recv_data_chunk:
  assumes "c \<noteq> []" "0 < n"
  shows "\<exists>buf c'. recv n (Data c # map Data cs @ rest) =
           (int (length buf), buf, map Data (c' @ cs) @ rest) \<and>
           buf \<noteq> [] \<and> [] \<notin> set c' \<and> buf @ concat c' = c"
proof (cases "length c \<le> n")
  case True
  with assms show ?thesis by (intro exI [of _ c] exI [of _ "[]"]) auto
next
  case False
  with assms show ?thesis by (intro exI [of _ "take n c"] exI [of _ "[drop n c]"]) auto
qed

lemma streamFileData_loop_conserves:
  "concat (map snd (reads (streamFileData_loop fs moved inb script rds wrs)))
     @ stream_data (sender_in (streamFileData_loop fs moved inb script rds wrs))
   = concat (map snd rds) @ stream_data inb"
proof (induction fs moved inb script rds wrs rule: streamFileData_loop.induct)
  case (1 fs moved inb script rds wrs)
  show ?case
  proof (cases "moved < fs")
    case False
    then show ?thesis by (simp add: streamFileData_loop.simps)
  next
    case True
    let ?n = "min (nat (fs - moved)) CHUNK_SIZE"
    obtain r buf inb' where rv: "recv ?n inb = (r, buf, inb')"
      by (cases "recv ?n inb") auto
    obtain s script' where sr: "send_result script buf = (s, script')"
      by (cases "send_result script buf") auto
    note data = recv_stream_data [OF rv]
    show ?thesis
    proof (cases "r \<le> 0 \<or> s \<le> 0")
      case True
      with \<open>moved < fs\<close> rv sr data show ?thesis
        by (subst (1 2) streamFileData_loop.simps) (auto simp: Let_def)
    next
      case False
      then have "concat (map snd (reads (streamFileData_loop fs (moved + r) inb' script'
                    (rds @ [(r, buf)]) (wrs @ [(buf, s)]))))
                 @ stream_data (sender_in (streamFileData_loop fs (moved + r) inb' script'
                    (rds @ [(r, buf)]) (wrs @ [(buf, s)])))
                 = concat (map snd (rds @ [(r, buf)])) @ stream_data inb'"
        using "1.IH" [OF \<open>moved < fs\<close> refl rv [symmetric] refl _ sr [symmetric]] by simp
      with False \<open>moved < fs\<close> rv sr data show ?thesis
        by (subst (1 2) streamFileData_loop.simps) (auto simp: Let_def)
    qed
  qed
qed

lemma send_result_positive:
  "\<forall>x \<in> set script. 0 < x \<Longrightarrow> buf \<noteq> [] \<Longrightarrow> send_result script buf = (s, script')
     \<Longrightarrow> 0 < s \<and> (\<forall>x \<in> set script'. 0 < x)"
  by (cases script) auto

lemma streamFileData_loop_completes:
  assumes "inb = map Data chunks @ rest" and "[] \<notin> set chunks"
    and "fs - moved \<le> int (length (concat chunks))" and "\<forall>x \<in> set script. 0 < x"
  shows "success (streamFileData_loop fs moved inb script rds wrs)"
  using assms
proof (induction fs moved inb script rds wrs arbitrary: chunks
        rule: streamFileData_loop.induct)
  case (1 fs moved inb script rds wrs)
  show ?case
  proof (cases "moved < fs")
    case False
    then show ?thesis by (simp add: streamFileData_loop.simps)
  next
    case True
    let ?n = "min (nat (fs - moved)) CHUNK_SIZE"
    from True have npos: "0 < ?n" by (simp add: CHUNK_SIZE_def)
    from True "1.prems"(3) have "0 < length (concat chunks)" by linarith
    then have "chunks \<noteq> []" by auto
    with "1.prems"(2) obtain c cs where chunks: "chunks = c # cs" and c: "c \<noteq> []"
      by (cases chunks) auto
    from recv_data_chunk [OF c npos, of cs rest] "1.prems"(1) chunks
    obtain buf c' where rv: "recv ?n inb = (int (length buf), buf, map Data (c' @ cs) @ rest)"
      and buf: "buf \<noteq> []" and c': "[] \<notin> set c'" and split: "buf @ concat c' = c"
      by auto
    obtain s script' where sr: "send_result script buf = (s, script')"
      by (cases "send_result script buf") auto
    from send_result_positive [OF "1.prems"(4) buf sr]
    have spos: "0 < s" and script': "\<forall>x \<in> set script'. 0 < x" by auto
    have len: "length (concat chunks) = length buf + length (concat (c' @ cs))"
      unfolding chunks split [symmetric] by simp
    have "success (streamFileData_loop fs (moved + int (length buf))
             (map Data (c' @ cs) @ rest) script'
             (rds @ [(int (length buf), buf)]) (wrs @ [(buf, s)]))"
    proof (rule "1.IH" [OF True refl rv [symmetric] refl _ sr [symmetric] _ refl])
      show "\<not> int (length buf) \<le> 0" using buf by simp
      show "\<not> s \<le> 0" using spos by simp
      show "[] \<notin> set (c' @ cs)" using c' "1.prems"(2) chunks by auto
      show "fs - (moved + int (length buf)) \<le> int (length (concat (c' @ cs)))"
        using "1.prems"(3) len by simp
      show "\<forall>x \<in> set script'. 0 < x" by (rule script')
    qed
    moreover have "\<not> int (length buf) \<le> 0" using buf by simp
    moreover have "\<not> s \<le> 0" using spos by simp
    ultimately show ?thesis
      using True rv sr by (subst streamFileData_loop.simps) (simp add: Let_def)
  qed
qed

lemma streamFileData_loop_short_stream:
  assumes "inb = map Data chunks @ stop" and "[] \<notin> set chunks" and "stalls stop"
    and "int (length (concat chunks)) < fs - moved" and "\<forall>x \<in> set script. 0 < x"
  shows "\<not> success (streamFileData_loop fs moved inb script rds wrs) \<and>
         total_transferred (streamFileData_loop fs moved inb script rds wrs) =
           moved + int (length (concat chunks))"
  using assms
proof (induction fs moved inb script rds wrs arbitrary: chunks
        rule: streamFileData_loop.induct)
  case (1 fs moved inb script rds wrs)
  from "1.prems"(4) have True: "moved < fs" by simp
  let ?n = "min (nat (fs - moved)) CHUNK_SIZE"
  from True have npos: "0 < ?n" by (simp add: CHUNK_SIZE_def)
  show ?case
  proof (cases chunks)
    case Nil
    obtain r buf inb' where rv: "recv ?n inb = (r, buf, inb')"
      by (cases "recv ?n inb") auto
    with Nil "1.prems"(1,3) have "r \<le> 0"
      using recv_stalls by auto
    with True rv Nil show ?thesis
      by (subst (1 2) streamFileData_loop.simps) (simp add: Let_def)
  next
    case (Cons c cs)
    with "1.prems"(2) have c: "c \<noteq> []" by auto
    from recv_data_chunk [OF c npos, of cs stop] "1.prems"(1) Cons
    obtain buf c' where rv: "recv ?n inb = (int (length buf), buf, map Data (c' @ cs) @ stop)"
      and buf: "buf \<noteq> []" and c': "[] \<notin> set c'" and split: "buf @ concat c' = c"
      by auto
    obtain s script' where sr: "send_result script buf = (s, script')"
      by (cases "send_result script buf") auto
    from send_result_positive [OF "1.prems"(5) buf sr]
    have spos: "0 < s" and script': "\<forall>x \<in> set script'. 0 < x" by auto
    have len: "length (concat chunks) = length buf + length (concat (c' @ cs))"
      unfolding Cons split [symmetric] by simp
    define nxt where "nxt = streamFileData_loop fs (moved + int (length buf))
             (map Data (c' @ cs) @ stop) script'
             (rds @ [(int (length buf), buf)]) (wrs @ [(buf, s)])"
    have "\<not> success nxt \<and>
          total_transferred nxt = moved + int (length buf) + int (length (concat (c' @ cs)))"
      unfolding nxt_def
    proof (rule "1.IH" [OF True refl rv [symmetric] refl _ sr [symmetric] _ refl])
      show "\<not> int (length buf) \<le> 0" using buf by simp
      show "\<not> s \<le> 0" using spos by simp
      show "[] \<notin> set (c' @ cs)" using c' "1.prems"(2) Cons by auto
      show "stalls stop" by (rule "1.prems"(3))
      show "int (length (concat (c' @ cs))) < fs - (moved + int (length buf))"
        using "1.prems"(4) len by simp
      show "\<forall>x \<in> set script'. 0 < x" by (rule script')
    qed
    then have nxt: "\<not> success nxt" "total_transferred nxt = moved + int (length (concat chunks))"
      using len by simp_all
    have "\<not> int (length buf) \<le> 0" using buf by simp
    moreover have "\<not> s \<le> 0" using spos by simp
    ultimately have "streamFileData_loop fs moved inb script rds wrs = nxt"
      using True rv sr unfolding nxt_def
      by (subst streamFileData_loop.simps) (simp add: Let_def)
    with nxt show ?thesis by simp
  qed
qed


lemma streamFileData_loop_full_writes:
  assumes "\<forall>w \<in> set wrs. snd w = int (length (fst w))"
  shows "\<forall>w \<in> set (writes (streamFileData_loop fs moved inb [] rds wrs)).
           snd w = int (length (fst w))"
  using assms
proof (induction fs moved inb "[] :: int list" rds wrs rule: streamFileData_loop.induct)
  case (1 fs moved inb rds wrs)
  show ?case
  proof (cases "moved < fs")
    case False
    with "1.prems" show ?thesis by (simp add: streamFileData_loop.simps)
  next
    case True
    let ?n = "min (nat (fs - moved)) CHUNK_SIZE"
    obtain r buf inb' where rv: "recv ?n inb = (r, buf, inb')"
      by (cases "recv ?n inb") auto
    have sr: "send_result [] buf = (int (length buf), [])" by simp
    show ?thesis
    proof (cases "r \<le> 0 \<or> int (length buf) \<le> 0")
      case True
      with \<open>moved < fs\<close> rv "1.prems" show ?thesis
        by (subst streamFileData_loop.simps) (auto simp: Let_def)
    next
      case False
      then have "\<forall>w \<in> set (writes (streamFileData_loop fs (moved + r) inb' []
                    (rds @ [(r, buf)]) (wrs @ [(buf, int (length buf))]))).
                   snd w = int (length (fst w))"
        using "1.hyps" [OF \<open>moved < fs\<close> refl rv [symmetric] refl _ sr [symmetric]] "1.prems"
        by simp
      with False \<open>moved < fs\<close> rv show ?thesis
        by (subst streamFileData_loop.simps) (simp add: Let_def)
    qed
  qed
qed

lemma streamFileData_accounting:
  assumes "0 \<le> file_size"
    and "r = streamFileData sender_socket recipient_socket sender_username recipient_username
               filename file_size inb script"
  shows "(\<forall>x \<in> set (reads r). fst x \<le> 8192 \<and> length (snd x) \<le> 8192) \<and>
         map fst (writes r) = map snd (filter (\<lambda>x. 0 < fst x) (reads r)) \<and>
         (success r \<longleftrightarrow> total_transferred r = file_size \<and> (\<forall>w \<in> set (writes r). 0 < snd w)) \<and>
         ((\<exists>x \<in> set (reads r). fst x \<le> 0) \<or> (\<exists>w \<in> set (writes r). snd w \<le> 0) \<longleftrightarrow>
            \<not> success r \<and> total_transferred r < file_size) \<and>
         (success r \<longrightarrow> int (length (concat (map fst (writes r)))) = file_size)"
proof -
  have "relay_ok file_size (streamFileData_loop file_size 0 inb script [] [])"
    using assms(1) by (intro streamFileData_loop_ok) simp_all
  moreover have "int CHUNK_SIZE = 8192" "CHUNK_SIZE = 8192"
    by (simp_all add: CHUNK_SIZE_def)
  ultimately show ?thesis
    unfolding assms(2) streamFileData_def relay_ok_def by (elim conjE, intro conjI) simp_all
qed

lemma streamFileData_conserves:
  "concat (map snd (reads (streamFileData ss rs su ru fn file_size inb script)))
     @ stream_data (sender_in (streamFileData ss rs su ru fn file_size inb script))
   = stream_data inb"
  using streamFileData_loop_conserves [of file_size 0 inb script "[]" "[]"]
  by (simp add: streamFileData_def)

lemma stream_data_chunks: "stream_data (map Data chunks @ rest) = concat chunks @ stream_data rest"
  by (induction chunks) (simp_all add: stream_data_def)

lemma streamFileData_complete:
  assumes "inb = map Data chunks @ rest" and "[] \<notin> set chunks"
    and "0 \<le> file_size" and "file_size \<le> int (length (concat chunks))"
    and "\<forall>x \<in> set script. 0 < x"
    and "r = streamFileData ss rs su ru fn file_size inb script"
  shows "success r \<and> total_transferred r = file_size \<and>
         concat (map fst (writes r)) = take (nat file_size) (concat chunks)"
proof -
  have ok: "success r"
    using streamFileData_loop_completes [OF assms(1,2) _ assms(5), of file_size 0 "[]" "[]"]
      assms(4,6) by (simp add: streamFileData_def)
  note acc = streamFileData_accounting [OF assms(3,6)]
  from acc ok have tot: "total_transferred r = file_size"
    and len: "int (length (concat (map fst (writes r)))) = file_size"
    by blast+
  from acc ok have "\<forall>x \<in> set (reads r). 0 < fst x"
    by (meson linorder_not_less)
  then have "filter (\<lambda>x. 0 < fst x) (reads r) = reads r"
    by (simp add: filter_id_conv)
  with acc have wr: "map fst (writes r) = map snd (reads r)" by simp
  have "concat (map fst (writes r)) @ stream_data (sender_in r) = concat chunks @ stream_data rest"
    using streamFileData_conserves [of ss rs su ru fn file_size inb script] wr assms(1,6)
    by (simp add: stream_data_chunks)
  then have "take (nat file_size) (concat (map fst (writes r)) @ stream_data (sender_in r)) =
             take (nat file_size) (concat chunks @ stream_data rest)"
    by simp
  with len assms(4) have "concat (map fst (writes r)) = take (nat file_size) (concat chunks)"
    by simp
  with ok tot show ?thesis by simp
qed

lemma streamFileData_delivers:
  assumes "inb = map Data chunks @ rest" and "[] \<notin> set chunks"
    and "0 \<le> file_size" and "file_size \<le> int (length (concat chunks))"
    and "r = streamFileData ss rs su ru fn file_size inb []"
  shows "success r \<and> delivered r = take (nat file_size) (concat chunks)"
proof -
  have "\<forall>w \<in> set (writes r). snd w = int (length (fst w))"
    using streamFileData_loop_full_writes [of "[]" file_size 0 inb "[]"] assms(5)
    by (simp add: streamFileData_def)
  then have eq: "map (\<lambda>w. take (nat (snd w)) (fst w)) (writes r) = map fst (writes r)"
    by (intro map_cong) auto
  have "delivered r = concat (map fst (writes r))"
    by (simp only: delivered_def eq)
  with streamFileData_complete [OF assms(1,2,3,4) _ assms(5)] show ?thesis
    by simp
qed

lemma streamFileData_short_stream:
  assumes "inb = map Data chunks @ stop" and "[] \<notin> set chunks" and "stalls stop"
    and "int (length (concat chunks)) < file_size" and "\<forall>x \<in> set script. 0 < x"
    and "r = streamFileData ss rs su ru fn file_size inb script"
  shows "\<not> success r \<and> total_transferred r = int (length (concat chunks))"
  using streamFileData_loop_short_stream [OF assms(1,2,3) _ assms(5), of file_size 0 "[]" "[]"]
    assms(4,6)
  by (simp add: streamFileData_def)

text \<open>
  C4. The claim: the relay loop forwards to the recipient exactly the bytes received
  from the sender, and the transfer ends Complete exactly when \<open>bytesMoved\<close> equals the
  declared size and every forwarded write succeeded. The loop tests the value of
  \<^verbatim>\<open>send\<close> only for being positive and then adds \<^verbatim>\<open>bytes_received\<close> to the count.
  For a transfer of 5 bytes whose one \<^verbatim>\<open>send\<close> accepts a single byte, the relay ends
  Complete with \<open>total_transferred = 5\<close> while the recipient's socket took the byte
  \<open>a\<close> only, and both parties are sent the completion notice.
  (\<^verbatim>\<open>sendFileToServer\<close> in the same file adds \<^verbatim>\<open>bytes_sent\<close> and fails when the sum
  differs from the size.) When every \<^verbatim>\<open>send\<close> takes its whole buffer the relay
  does as claimed: \<open>streamFileData_delivers\<close>, \<open>streamFileData_short_stream\<close>,
  \<open>streamFileData_accounting\<close>.
\<close>

theorem short_write_counted_complete:
  "streamFileData 4 5 ''alice'' ''bob'' ''f.bin'' 5 [Data ''abcde''] [1] =
     \<lparr>success = True, total_transferred = 5, reads = [(5, ''abcde'')],
      writes = [(''abcde'', 1)], sender_in = [], send_script = []\<rparr> \<and>
   delivered (streamFileData 4 5 ''alice'' ''bob'' ''f.bin'' 5 [Data ''abcde''] [1]) = ''a'' \<and>
   handleFileTransfer [(''bob'', \<lparr>socket_fd = 5, username = ''bob'', address = (2, 2)\<rparr>)]
       4 ''alice'' ''bob'' ''f.bin'' 5 [Data ''abcde''] [1] =
     ([Send 5 ''/file_offer from alice (f.bin, 5 B) - Accept? (y/n)'',
       Send 5 ''/file_data alice f.bin 5'',
       Send 5 ''abcde'',
       Send 4 complete_msg, Send 5 complete_msg], [], [])"
  by code_simp

section \<open>Two connections claiming one identity\<close>

text \<open>When the handlers run one after the other, the second claimant is turned away.\<close>

lemma serial_registration_one_succeeds:
  "run [0, 0, 0, 1, 1, 1] two_claimants =
     \<lparr>sys_clients = [(''alice'', \<lparr>socket_fd = 4, username = ''alice'', address = (1, 1)\<rparr>)],
      sys_threads = [\<lparr>t_socket = 4, t_addr = (1, 1), t_pc = Active ''alice''\<rparr>,
                     \<lparr>t_socket = 5, t_addr = (2, 2), t_pc = Closed\<rparr>],
      sys_trace = [Send 4 ''Welcome alice! Type /list, /quit, @user msg, /sendfile user file'',
                   Send 5 (''ERROR: Username '' @ [CHR 0x27] @ ''alice'' @ [CHR 0x27] @ '' is already taken''),
                   Close 5]\<rparr>"
  by code_simp

text \<open>
  C1. The claim: the check that an identity is absent and the insert of its connection
  are one atomic step, so of two concurrent registrations of the same identity exactly
  one succeeds and the other receives an error and is closed. In \<^verbatim>\<open>handleClient\<close>
  the check and \<^verbatim>\<open>registerClient\<close> are two critical sections with the lock released
  in between. With both checks scheduled before either insert, both connections pass,
  both are welcomed and enter the message loop as \<open>alice\<close>, nobody is sent an error or
  closed, and the second insert overwrites the first connection's entry.
\<close>

theorem concurrent_registration_both_succeed:
  "run [0, 1, 0, 1, 0, 1] two_claimants =
     \<lparr>sys_clients = [(''alice'', \<lparr>socket_fd = 5, username = ''alice'', address = (2, 2)\<rparr>)],
      sys_threads = [\<lparr>t_socket = 4, t_addr = (1, 1), t_pc = Active ''alice''\<rparr>,
                     \<lparr>t_socket = 5, t_addr = (2, 2), t_pc = Active ''alice''\<rparr>],
      sys_trace = [Send 4 ''Welcome alice! Type /list, /quit, @user msg, /sendfile user file'',
                   Send 5 ''Welcome alice! Type /list, /quit, @user msg, /sendfile user file'']\<rparr>"
  by code_simp

section \<open>The file-send command\<close>

lemma sendfile_not_other_command:
  "starts_with message ''/sendfile'' \<Longrightarrow> message \<noteq> ''/list'' \<and> \<not> starts_with message ''@''"
  by (cases message) (auto simp: starts_with_def)

lemma sendfile_too_few_fields:
  assumes "starts_with message ''/sendfile''" and "length (split message (CHR '' '')) < 4"
  shows "processMessage cs message sender_username sender_socket inb script =
           Inr ([Send sender_socket ''Usage: /sendfile <username> <filename> <file_size>''],
                inb, script)"
  using assms sendfile_not_other_command [OF assms(1)]
  by (simp add: processMessage_def encrypt_if_enabled_def isEnabled_def)

lemma sendfile_size_out_of_bounds:
  assumes "starts_with message ''/sendfile''" and "4 \<le> length (split message (CHR '' ''))"
    and "stol (split message (CHR '' '') ! 3) = Inr file_size"
    and "file_size \<le> 0 \<or> 10485760 < file_size"
  shows "processMessage cs message sender_username sender_socket inb script =
           Inr ([Send sender_socket ''ERROR: Invalid file size (max 10MB)''], inb, script)"
  using assms sendfile_not_other_command [OF assms(1)]
  by (auto simp: processMessage_def encrypt_if_enabled_def isEnabled_def MAX_SIZE_def Let_def)

lemma sendfile_size_not_read:
  assumes "starts_with message ''/sendfile''" and "4 \<le> length (split message (CHR '' ''))"
    and "stol (split message (CHR '' '') ! 3) = Inl e"
  shows "processMessage cs message sender_username sender_socket inb script = Inl e"
  using assms sendfile_not_other_command [OF assms(1)]
  by (auto simp: processMessage_def Let_def)

lemma message_loop_continues:
  assumes "0 < length payload" "length payload \<le> 4095" "trim payload = message" "message \<noteq> []"
    and "message \<noteq> ''/quit''"
    and "processMessage cs message uname client_socket rest script = Inr (acts, inb', script')"
  shows "message_loop cs uname client_socket (Data payload # rest) script =
           (acts @ fst (message_loop cs uname client_socket inb' script'),
            snd (message_loop cs uname client_socket inb' script'))"
  using assms
  by (subst message_loop.simps) (auto simp: isEnabled_def Let_def split: prod.splits)

text \<open>
  C2. The claim: processing an inbound line, malformed ones included, never aborts the
  server. For the line \<open>/sendfile bob notes.txt abc\<close> from the authenticated client
  \<open>alice\<close>, \<^verbatim>\<open>std::stol\<close> throws \<^verbatim>\<open>std::invalid_argument\<close>; nothing catches it, it
  leaves the thread function and the process is terminated: the handler never reaches
  the next line or its cleanup, and \<open>alice\<close> stays in the registry.
\<close>

theorem nonnumeric_size_terminates_server:
  "handleClient [(''bob'', \<lparr>socket_fd = 5, username = ''bob'', address = (2, 2)\<rparr>)] 4 (1, 1)
     [Data ''alice'', Data ''/sendfile bob notes.txt abc'', Data ''hello''] [] =
   \<lparr>trace = [Send 4 ''Welcome alice! Type /list, /quit, @user msg, /sendfile user file'',
              Send 5 ''alice joined the chat!''],
    registry = [(''alice'', \<lparr>socket_fd = 4, username = ''alice'', address = (1, 1)\<rparr>),
                (''bob'', \<lparr>socket_fd = 5, username = ''bob'', address = (2, 2)\<rparr>)],
    uncaught = Some invalid_argument\<rparr>"
  by code_simp

text \<open>
  C3. The claim: a \<open>/sendfile\<close> command with wrong arity, a non-numeric size or a size
  outside 1..10 MiB is answered with a usage or size error, no transfer is started and
  the sender's connection stays Active. Too few fields and a size that \<^verbatim>\<open>std::stol\<close>
  reads outside the bounds are answered so (\<open>sendfile_too_few_fields\<close>,
  \<open>sendfile_size_out_of_bounds\<close>) and the loop goes on (\<open>message_loop_continues\<close>).
  With the non-numeric size \<open>ten\<close> nothing is sent to the sender and the message loop
  ends with the uncaught exception instead of reading the next line.
\<close>

theorem nonnumeric_size_no_reply:
  "processMessage [(''bob'', \<lparr>socket_fd = 5, username = ''bob'', address = (2, 2)\<rparr>)]
     ''/sendfile bob notes.txt ten'' ''alice'' 4 [Data ''hello''] [] = Inl invalid_argument \<and>
   message_loop [(''bob'', \<lparr>socket_fd = 5, username = ''bob'', address = (2, 2)\<rparr>)]
     ''alice'' 4 [Data ''/sendfile bob notes.txt ten'', Data ''hello''] [] =
       ([], Some invalid_argument)"
  by code_simp

text \<open>
  C5. The claim: every \<open>/sendfile\<close> command whose declared size is not positive or
  exceeds 10485760 is rejected with an error to the sender before any offer is sent.
  This holds for every size \<^verbatim>\<open>std::stol\<close> can read (\<open>sendfile_size_out_of_bounds\<close>).
  A declared size beyond the range of \<^verbatim>\<open>long\<close>, such as \<open>99999999999999999999\<close>,
  makes \<^verbatim>\<open>std::stol\<close> throw \<^verbatim>\<open>std::out_of_range\<close>: no offer is sent, but no error
  reaches the sender either, and the exception ends the message loop uncaught.
\<close>

theorem oversized_numeral_no_reply:
  "stol ''99999999999999999999'' = Inl out_of_range \<and>
   processMessage [(''bob'', \<lparr>socket_fd = 5, username = ''bob'', address = (2, 2)\<rparr>)]
     ''/sendfile bob big.bin 99999999999999999999'' ''alice'' 4 [] [] = Inl out_of_range \<and>
   message_loop [(''bob'', \<lparr>socket_fd = 5, username = ''bob'', address = (2, 2)\<rparr>)]
     ''alice'' 4 [Data ''/sendfile bob big.bin 99999999999999999999'', Data ''hello''] [] =
       ([], Some out_of_range)"
  by code_simp

end
